theory Spec2Isabelle
  imports Main "HOL-Library.Word"
begin

section \<open>JavaScript values used by change-case.tsx\<close>

text \<open>
  A JavaScript string is a sequence of UTF-16 code units. \<open>js\<close> turns an ASCII
  literal into such a string. A string is truthy exactly when it is not empty.
\<close>

type_synonym jschar = "16 word"
type_synonym jsstring = "jschar list"

definition js :: "string \<Rightarrow> jsstring" where
  "js s = map of_char s"

definition truthy :: "jsstring \<Rightarrow> bool" where
  "truthy s = (s \<noteq> [])"

text \<open>
  \<open>CaseType\<close> and \<open>CaseFunction\<close> come from \<open>./types.js\<close>: a case identifier is a
  string at run time, a case function maps a string to a string.
\<close>

type_synonym CaseType = jsstring
type_synonym CaseFunction = "jsstring \<Rightarrow> jsstring"

section \<open>The component state and the props of a list item\<close>

text \<open>
  \<open>Command\<close> keeps two lists in React state: \<open>pinned\<close> and \<open>recent\<close>
  (both start as \<open>[]\<close>). Every \<open>CaseItem\<close> receives the props
  \<open>case\<close>, \<open>modified\<close>, \<open>pinned?\<close> and \<open>recent?\<close>; the two optional flags are
  only tested for truthiness, so an absent flag is \<open>False\<close>.
\<close>

record state =
  pinned :: "CaseType list"
  recent :: "CaseType list"

record props =
  case_prop :: CaseType
  modified_prop :: jsstring
  pinned_prop :: bool
  recent_prop :: bool

record Application =
  app_name :: jsstring
  app_path :: jsstring

definition initial_state :: state where
  "initial_state = \<lparr>pinned = [], recent = []\<rparr>"

section \<open>Action handlers\<close>

text \<open>
  \<open>CopyToClipboard.onAction\<close> (lines 145-152):
  \<^verbatim>\<open>if (!props.pinned) {
    setRecent([props.case, ...recent.filter((c) => c !== props.case)].slice(0, 4));
  }\<close>
  followed by the HUD, the clipboard write and the closing of the window, none of
  which touches the two lists. \<open>slice(0, 4)\<close> keeps the first four elements.
\<close>

definition CopyToClipboard_onAction :: "props \<Rightarrow> state \<Rightarrow> state" where
  "CopyToClipboard_onAction p st =
     (if \<not> pinned_prop p
      then st\<lparr>recent := take 4 (case_prop p # filter (\<lambda>c. c \<noteq> case_prop p) (recent st))\<rparr>
      else st)"

text \<open>
  \<open>PasteToActiveApp\<close> (lines 157-177) renders an action only when the frontmost
  application is known; its handler updates \<open>recent\<close> by the same expression.
\<close>

definition PasteToActiveApp_onAction :: "Application option \<Rightarrow> props \<Rightarrow> state \<Rightarrow> state option" where
  "PasteToActiveApp_onAction frontmostApp p st =
     (case frontmostApp of
        None \<Rightarrow> None
      | Some app \<Rightarrow>
          Some (if \<not> pinned_prop p
                then st\<lparr>recent := take 4 (case_prop p # filter (\<lambda>c. c \<noteq> case_prop p) (recent st))\<rparr>
                else st))"

text \<open>A run of copy actions, one per element of a list of props, oldest first.\<close>

fun copy_all :: "props list \<Rightarrow> state \<Rightarrow> state" where
  "copy_all [] st = st"
| "copy_all (p # ps) st = copy_all ps (CopyToClipboard_onAction p st)"

section \<open>The operations as the specification words them\<close>

text \<open>
  The specification's \<open>use(id, isPinned)\<close> on RecentList: a no-op when \<open>isPinned\<close>;
  otherwise remove any occurrence of \<open>id\<close>, prepend \<open>id\<close>, truncate to the first
  \<open>capacity\<close> elements, where the capacity is 4.
\<close>

definition capacity :: nat where
  "capacity = 4"

definition spec_use :: "CaseType \<Rightarrow> bool \<Rightarrow> CaseType list \<Rightarrow> CaseType list" where
  "spec_use i isPinned items =
     (if isPinned then items else take capacity (i # removeAll i items))"

text \<open>The props of an item for identifier \<open>i\<close> that is not shown as pinned.\<close>

definition unpinned_item :: "CaseType \<Rightarrow> jsstring \<Rightarrow> bool \<Rightarrow> props" where
  "unpinned_item i m r = \<lparr>case_prop = i, modified_prop = m, pinned_prop = False, recent_prop = r\<rparr>"

section \<open>The remaining list actions of a case item\<close>

text \<open>
  The second section of the action panel (lines 196-253). An item that is not shown as
  pinned offers \<open>Pin Case\<close>; an item shown as pinned offers \<open>Remove Pinned Case\<close> and
  \<open>Clear Pinned Cases\<close> instead; an item shown as recent offers \<open>Remove Recent Case\<close>
  and \<open>Clear Recent Cases\<close>. An action that is not rendered is \<open>None\<close>.
  \<open>Pin Case\<close> (lines 202-207):
  \<^verbatim>\<open>setPinned([props.case, ...pinned]);
  if (props.recent) {
    setRecent(recent.filter((c) => c !== props.case));
  }\<close>
\<close>

definition PinCase_onAction :: "props \<Rightarrow> state \<Rightarrow> state option" where
  "PinCase_onAction p st =
     (if \<not> pinned_prop p
      then Some (st\<lparr>pinned := case_prop p # pinned st,
                    recent := (if recent_prop p
                               then filter (\<lambda>c. c \<noteq> case_prop p) (recent st)
                               else recent st)\<rparr>)
      else None)"

definition RemovePinnedCase_onAction :: "props \<Rightarrow> state \<Rightarrow> state option" where
  "RemovePinnedCase_onAction p st =
     (if \<not> pinned_prop p then None
      else Some (st\<lparr>pinned := filter (\<lambda>c. c \<noteq> case_prop p) (pinned st)\<rparr>))"

definition ClearPinnedCases_onAction :: "props \<Rightarrow> state \<Rightarrow> state option" where
  "ClearPinnedCases_onAction p st =
     (if \<not> pinned_prop p then None else Some (st\<lparr>pinned := []\<rparr>))"

definition RemoveRecentCase_onAction :: "props \<Rightarrow> state \<Rightarrow> state option" where
  "RemoveRecentCase_onAction p st =
     (if recent_prop p
      then Some (st\<lparr>recent := filter (\<lambda>c. c \<noteq> case_prop p) (recent st)\<rparr>)
      else None)"

definition ClearRecentCases_onAction :: "props \<Rightarrow> state \<Rightarrow> state option" where
  "ClearRecentCases_onAction p st =
     (if recent_prop p then Some (st\<lparr>recent := []\<rparr>) else None)"

section \<open>Applying a case function to every line\<close>

text \<open>
  \<open>input.split("\n")\<close> cuts the string at every line feed (code unit 10); the empty
  string gives one empty line. \<open>join("\n")\<close> puts a line feed between consecutive
  elements.
\<close>

fun split_nl :: "jsstring \<Rightarrow> jsstring list" where
  "split_nl [] = [[]]"
| "split_nl (c # cs) =
     (if c = 0x0A then [] # split_nl cs
      else (case split_nl cs of
              [] \<Rightarrow> [[c]]
            | l # ls \<Rightarrow> (c # l) # ls))"

fun join :: "jsstring \<Rightarrow> jsstring list \<Rightarrow> jsstring" where
  "join sep [] = []"
| "join sep [l] = l"
| "join sep (l # ls) = l @ sep @ join sep ls"

text \<open>
  \<open>modifyCasesWrapper\<close> (lines 54-61): the \<open>for\<close> loop pushes \<open>case_(line)\<close> onto
  \<open>modifiedArr\<close> for each line in turn.
\<close>

fun push_lines :: "CaseFunction \<Rightarrow> jsstring list \<Rightarrow> jsstring list \<Rightarrow> jsstring list" where
  "push_lines case_fn [] modifiedArr = modifiedArr"
| "push_lines case_fn (line # lines) modifiedArr = push_lines case_fn lines (modifiedArr @ [case_fn line])"

definition modifyCasesWrapper :: "jsstring \<Rightarrow> CaseFunction \<Rightarrow> jsstring" where
  "modifyCasesWrapper input case_fn = join [0x0A] (push_lines case_fn (split_nl input) [])"

section \<open>The rendered list\<close>

text \<open>
  The table \<open>functions\<close> of \<open>./types.js\<close> and the preference values are not part of
  this file; they are parameters: \<open>keys\<close> are the keys of \<open>functions\<close> in the order of
  \<open>Object.entries\<close>, \<open>functions\<close> is the lookup \<open>functions[key]\<close>, and
  \<open>preferences name\<close> tells whether the preference \<open>name\<close> is truthy.
  \<open>Command\<close> renders (lines 260-295) one item per pinned identifier with
  \<open>pinned={true}\<close>, one per recent identifier with \<open>recent={true}\<close>, and one without
  either flag per key of \<open>functions\<close> whose preference (the key without its spaces) is
  set and which is in neither list.
\<close>

definition Command_items ::
  "CaseType list \<Rightarrow> (CaseType \<Rightarrow> CaseFunction) \<Rightarrow> (jsstring \<Rightarrow> bool) \<Rightarrow> jsstring \<Rightarrow> state \<Rightarrow> props list" where
  "Command_items keys functions preferences clipboard st =
     map (\<lambda>key. \<lparr>case_prop = key, modified_prop = modifyCasesWrapper clipboard (functions key),
                  pinned_prop = True, recent_prop = False\<rparr>) (pinned st)
   @ map (\<lambda>key. \<lparr>case_prop = key, modified_prop = modifyCasesWrapper clipboard (functions key),
                  pinned_prop = False, recent_prop = True\<rparr>) (recent st)
   @ map (\<lambda>key. \<lparr>case_prop = key, modified_prop = modifyCasesWrapper clipboard (functions key),
                  pinned_prop = False, recent_prop = False\<rparr>)
       (filter (\<lambda>key. preferences (filter (\<lambda>c. c \<noteq> 0x20) key)
                      \<and> key \<notin> set (recent st) \<and> key \<notin> set (pinned st)) keys)"

section \<open>Reading the text to convert\<close>

text \<open>
  \<open>Clipboard.readText()\<close> resolves to a string or to \<open>undefined\<close> (its declared
  result; it is called outside any \<open>try\<close>); \<open>getSelectedText()\<close> resolves to a string
  or throws. \<open>getSelection\<close> (lines 31-37)
  turns the throw into the empty string. \<open>readContent\<close> (lines 39-52) returns the first
  truthy text in the preferred order and throws \<open>NoTextError\<close> when there is none.
\<close>

datatype error = NoTextError | SyntaxError | HostError

definition getSelection :: "error + jsstring \<Rightarrow> jsstring" where
  "getSelection selectedText = (case selectedText of Inl e \<Rightarrow> [] | Inr s \<Rightarrow> s)"

definition truthy_text :: "jsstring option \<Rightarrow> bool" where
  "truthy_text v = (case v of None \<Rightarrow> False | Some s \<Rightarrow> truthy s)"

definition readContent :: "jsstring \<Rightarrow> jsstring option \<Rightarrow> error + jsstring \<Rightarrow> error + jsstring" where
  "readContent preferredSource clipboardText selectedText =
     (let clipboard = clipboardText;
          selected = getSelection selectedText
      in if preferredSource = js ''clipboard''
         then (case clipboard of
                 Some c \<Rightarrow> if truthy c then Inr c
                           else if truthy selected then Inr selected else Inl NoTextError
               | None \<Rightarrow> if truthy selected then Inr selected else Inl NoTextError)
         else (if truthy selected then Inr selected
               else (case clipboard of
                       Some c \<Rightarrow> if truthy c then Inr c else Inl NoTextError
                     | None \<Rightarrow> Inl NoTextError)))"

section \<open>The states the component can reach\<close>

text \<open>
  The transitions of the list state: the component starts with both lists empty, and every
  further state comes from an action of an item of the rendered list. (What one session
  stores, the next one reads back unchanged.)
\<close>

inductive reachable ::
  "CaseType list \<Rightarrow> (CaseType \<Rightarrow> CaseFunction) \<Rightarrow> (jsstring \<Rightarrow> bool) \<Rightarrow> state \<Rightarrow> bool"
  for keys :: "CaseType list" and fns :: "CaseType \<Rightarrow> CaseFunction"
    and preferences :: "jsstring \<Rightarrow> bool" where
  start: "reachable keys fns preferences initial_state"
| copy: "reachable keys fns preferences st \<Longrightarrow>
         p \<in> set (Command_items keys fns preferences clipboard st) \<Longrightarrow>
         reachable keys fns preferences (CopyToClipboard_onAction p st)"
| paste: "reachable keys fns preferences st \<Longrightarrow>
         p \<in> set (Command_items keys fns preferences clipboard st) \<Longrightarrow>
         PasteToActiveApp_onAction frontmostApp p st = Some st' \<Longrightarrow>
         reachable keys fns preferences st'"
| pin: "reachable keys fns preferences st \<Longrightarrow>
         p \<in> set (Command_items keys fns preferences clipboard st) \<Longrightarrow>
         PinCase_onAction p st = Some st' \<Longrightarrow>
         reachable keys fns preferences st'"
| remove_pinned: "reachable keys fns preferences st \<Longrightarrow>
         p \<in> set (Command_items keys fns preferences clipboard st) \<Longrightarrow>
         RemovePinnedCase_onAction p st = Some st' \<Longrightarrow>
         reachable keys fns preferences st'"
| clear_pinned: "reachable keys fns preferences st \<Longrightarrow>
         p \<in> set (Command_items keys fns preferences clipboard st) \<Longrightarrow>
         ClearPinnedCases_onAction p st = Some st' \<Longrightarrow>
         reachable keys fns preferences st'"
| remove_recent: "reachable keys fns preferences st \<Longrightarrow>
         p \<in> set (Command_items keys fns preferences clipboard st) \<Longrightarrow>
         RemoveRecentCase_onAction p st = Some st' \<Longrightarrow>
         reachable keys fns preferences st'"
| clear_recent: "reachable keys fns preferences st \<Longrightarrow>
         p \<in> set (Command_items keys fns preferences clipboard st) \<Longrightarrow>
         ClearRecentCases_onAction p st = Some st' \<Longrightarrow>
         reachable keys fns preferences st'"

code_pred reachable .

text \<open>A table and preference values to run the rendered list on concrete inputs.\<close>

definition identity_functions :: "CaseType \<Rightarrow> CaseFunction" where
  "identity_functions key line = line"

definition all_preferences :: "jsstring \<Rightarrow> bool" where
  "all_preferences pref = True"

section \<open>JSON texts\<close>

text \<open>
  \<open>JSON.parse\<close> and \<open>JSON.stringify\<close> are built into the language. \<open>JSON.parse\<close> is
  modelled on the whole JSON grammar: it returns the value a JSON text denotes and throws
  \<open>SyntaxError\<close> on every other string. A number keeps its lexeme, an object keeps its
  members as written. \<open>JSON.stringify\<close> is only ever called on an array of strings
  (\<open>CaseType[]\<close>) and is modelled on such arrays.
\<close>

datatype json =
  JNull
| JBool bool
| JNumber jsstring
| JString jsstring
| JArray "json list"
| JObject "(jsstring \<times> json) list"

datatype token =
  TLBracket | TRBracket | TLBrace | TRBrace | TComma | TColon
| TString jsstring | TNumber jsstring | TTrue | TFalse | TNull

subsection \<open>Scanning\<close>

text \<open>White space is tab, line feed, carriage return and space.\<close>

definition is_ws :: "jschar \<Rightarrow> bool" where
  "is_ws c = (c = 0x09 \<or> c = 0x0A \<or> c = 0x0D \<or> c = 0x20)"

definition is_digit :: "jschar \<Rightarrow> bool" where
  "is_digit c = (0x30 \<le> c \<and> c \<le> 0x39)"

definition hex_value :: "jschar \<Rightarrow> nat option" where
  "hex_value c =
     (if 0x30 \<le> c \<and> c \<le> 0x39 then Some (unat c - 0x30)
      else if 0x61 \<le> c \<and> c \<le> 0x66 then Some (unat c - 0x61 + 10)
      else if 0x41 \<le> c \<and> c \<le> 0x46 then Some (unat c - 0x41 + 10)
      else None)"

text \<open>
  The character after a backslash, other than \<open>u\<close>: one of
  \<^verbatim>\<open>" \ / b f n r t\<close>.
\<close>

definition unescape :: "jschar \<Rightarrow> jschar option" where
  "unescape e =
     (if e = 0x22 then Some 0x22
      else if e = 0x5C then Some 0x5C
      else if e = 0x2F then Some 0x2F
      else if e = 0x62 then Some 0x08
      else if e = 0x66 then Some 0x0C
      else if e = 0x6E then Some 0x0A
      else if e = 0x72 then Some 0x0D
      else if e = 0x74 then Some 0x09
      else None)"

definition prepend :: "jschar \<Rightarrow> (jsstring \<times> jsstring) option \<Rightarrow> (jsstring \<times> jsstring) option" where
  "prepend c r = (case r of None \<Rightarrow> None | Some (s, rest) \<Rightarrow> Some (c # s, rest))"

text \<open>
  The characters of a string after its opening quote: the result is the string's value
  and the text after the closing quote. A code unit below 32 must be escaped.
\<close>

fun lex_string :: "jsstring \<Rightarrow> (jsstring \<times> jsstring) option" where
  "lex_string [] = None"
| "lex_string (c # cs) =
     (if c = 0x22 then Some ([], cs)
      else if c = 0x5C then
        (case cs of
           [] \<Rightarrow> None
         | e # es \<Rightarrow>
             if e = 0x75 then
               (case es of
                  h1 # h2 # h3 # h4 # rest \<Rightarrow>
                    (case (hex_value h1, hex_value h2, hex_value h3, hex_value h4) of
                       (Some a, Some b, Some c, Some d) \<Rightarrow>
                          prepend (word_of_nat (4096 * a + 256 * b + 16 * c + d)) (lex_string rest)
                     | _ \<Rightarrow> None)
                | _ \<Rightarrow> None)
             else
               (case unescape e of
                  None \<Rightarrow> None
                | Some u \<Rightarrow> prepend u (lex_string es)))
      else if c < 0x20 then None
      else prepend c (lex_string cs))"

text \<open>
  A number: an optional minus, an integer part (\<open>0\<close>, or a digit from 1 to 9 followed
  by digits), an optional fraction (a point and at least one digit) and an optional
  exponent (\<open>e\<close> or \<open>E\<close>, an optional sign and at least one digit). The result is the
  lexeme and the text after it.
\<close>

definition lex_int :: "jsstring \<Rightarrow> (jsstring \<times> jsstring) option" where
  "lex_int cs =
     (case cs of
        [] \<Rightarrow> None
      | d # r \<Rightarrow>
          if d = 0x30 then Some ([d], r)
          else if is_digit d then Some (d # takeWhile is_digit r, dropWhile is_digit r)
          else None)"

definition lex_frac :: "jsstring \<Rightarrow> (jsstring \<times> jsstring) option" where
  "lex_frac cs =
     (case cs of
        [] \<Rightarrow> Some ([], [])
      | d # r \<Rightarrow>
          if d = 0x2E then
            (if takeWhile is_digit r = [] then None
             else Some (d # takeWhile is_digit r, dropWhile is_digit r))
          else Some ([], cs))"

definition lex_sign :: "jsstring \<Rightarrow> jsstring \<times> jsstring" where
  "lex_sign cs =
     (case cs of
        [] \<Rightarrow> ([], [])
      | s # r \<Rightarrow> if s = 0x2B \<or> s = 0x2D then ([s], r) else ([], cs))"

definition lex_exp :: "jsstring \<Rightarrow> (jsstring \<times> jsstring) option" where
  "lex_exp cs =
     (case cs of
        [] \<Rightarrow> Some ([], [])
      | e # r \<Rightarrow>
          if e = 0x65 \<or> e = 0x45 then
            (case lex_sign r of
               (sg, r') \<Rightarrow>
                 if takeWhile is_digit r' = [] then None
                 else Some (e # sg @ takeWhile is_digit r', dropWhile is_digit r'))
          else Some ([], cs))"

definition lex_minus :: "jsstring \<Rightarrow> jsstring \<times> jsstring" where
  "lex_minus cs =
     (case cs of
        [] \<Rightarrow> ([], [])
      | c # r \<Rightarrow> if c = 0x2D then ([c], r) else ([], cs))"

definition lex_number :: "jsstring \<Rightarrow> (jsstring \<times> jsstring) option" where
  "lex_number cs =
     (case lex_minus cs of
        (neg, r0) \<Rightarrow>
          (case lex_int r0 of
             None \<Rightarrow> None
           | Some (i, r1) \<Rightarrow>
               (case lex_frac r1 of
                  None \<Rightarrow> None
                | Some (f, r2) \<Rightarrow>
                    (case lex_exp r2 of
                       None \<Rightarrow> None
                     | Some (e, r3) \<Rightarrow> Some (neg @ i @ f @ e, r3)))))"

lemma lex_string_shorter: "lex_string cs = Some (s, rest) \<Longrightarrow> length rest < length cs"
proof (induction cs arbitrary: s rule: lex_string.induct)
  case 1
  then show ?case by simp
next
  case (2 c cs)
  from "2.prems" "2.IH" show ?case
    by (auto simp: prepend_def less_Suc_eq
             split: if_splits list.splits option.splits prod.splits)
qed

lemma lex_number_shorter: "lex_number cs = Some (n, rest) \<Longrightarrow> length rest < length cs"
proof -
  have d: "length (dropWhile is_digit r) \<le> length r" for r
    by (rule length_dropWhile_le)
  have i: "lex_int r = Some (a, r') \<Longrightarrow> length r' < length r" for r a r'
    using d by (auto simp: lex_int_def le_imp_less_Suc split: list.splits if_splits)
  have f: "lex_frac r = Some (a, r') \<Longrightarrow> length r' \<le> length r" for r a r'
    using d by (auto simp: lex_frac_def le_SucI split: list.splits if_splits)
  have sg: "lex_sign r = (a, r') \<Longrightarrow> length r' \<le> length r" for r a r'
    by (auto simp: lex_sign_def split: list.splits if_splits)
  have e: "lex_exp r = Some (a, r') \<Longrightarrow> length r' \<le> length r" for r a r'
    using d sg
    by (fastforce simp: lex_exp_def split: list.splits if_splits prod.splits
                  intro: le_SucI order_trans)
  assume "lex_number cs = Some (n, rest)"
  then obtain neg r0 a r1 b r2 c where
    "lex_minus cs = (neg, r0)" and "lex_int r0 = Some (a, r1)"
    and "lex_frac r1 = Some (b, r2)" and "lex_exp r2 = Some (c, rest)"
    by (auto simp: lex_number_def split: option.splits prod.splits)
  moreover have "lex_minus r = (a, r') \<Longrightarrow> length r' \<le> length r" for r a r'
    by (auto simp: lex_minus_def split: list.splits if_splits)
  ultimately have "length r0 \<le> length cs" "length r1 < length r0"
    "length r2 \<le> length r1" "length rest \<le> length r2"
    using i f e by blast+
  then show ?thesis by linarith
qed

text \<open>The tokens of a text; \<open>None\<close> when some part of it starts no token.\<close>

function tokens :: "jsstring \<Rightarrow> token list option" where
  "tokens [] = Some []"
| "tokens (c # cs) =
     (if is_ws c then tokens cs
      else if c = 0x5B then map_option ((#) TLBracket) (tokens cs)
      else if c = 0x5D then map_option ((#) TRBracket) (tokens cs)
      else if c = 0x7B then map_option ((#) TLBrace) (tokens cs)
      else if c = 0x7D then map_option ((#) TRBrace) (tokens cs)
      else if c = 0x2C then map_option ((#) TComma) (tokens cs)
      else if c = 0x3A then map_option ((#) TColon) (tokens cs)
      else if c = 0x22 then
        (case lex_string cs of
           None \<Rightarrow> None
         | Some (s, rest) \<Rightarrow> map_option ((#) (TString s)) (tokens rest))
      else if c = 0x2D \<or> is_digit c then
        (case lex_number (c # cs) of
           None \<Rightarrow> None
         | Some (n, rest) \<Rightarrow> map_option ((#) (TNumber n)) (tokens rest))
      else if take 4 (c # cs) = js ''true'' then map_option ((#) TTrue) (tokens (drop 3 cs))
      else if take 5 (c # cs) = js ''false'' then map_option ((#) TFalse) (tokens (drop 4 cs))
      else if take 4 (c # cs) = js ''null'' then map_option ((#) TNull) (tokens (drop 3 cs))
      else None)"
  by pat_completeness auto
termination
  by (relation "measure length")
     (auto dest: lex_string_shorter lex_number_shorter)

subsection \<open>Parsing\<close>

text \<open>
  The parser reads the tokens from left to right and keeps the arrays and objects that
  are still open on a stack: an open array with its elements so far (last first), an
  open object with its members so far and the key whose value comes next.
  \<open>parse_value\<close> expects a value, \<open>parse_after\<close> has just read the value \<open>v\<close>.
\<close>

datatype frame =
  InArray "json list"
| InObject "(jsstring \<times> json) list" jsstring

fun parse_value :: "frame list \<Rightarrow> token list \<Rightarrow> json option"
  and parse_after :: "json \<Rightarrow> frame list \<Rightarrow> token list \<Rightarrow> json option" where
  "parse_value st [] = None"
| "parse_value st (t # ts) =
     (case t of
        TString s \<Rightarrow> parse_after (JString s) st ts
      | TNumber n \<Rightarrow> parse_after (JNumber n) st ts
      | TTrue \<Rightarrow> parse_after (JBool True) st ts
      | TFalse \<Rightarrow> parse_after (JBool False) st ts
      | TNull \<Rightarrow> parse_after JNull st ts
      | TLBracket \<Rightarrow>
          (case ts of
             TRBracket # ts' \<Rightarrow> parse_after (JArray []) st ts'
           | _ \<Rightarrow> parse_value (InArray [] # st) ts)
      | TLBrace \<Rightarrow>
          (case ts of
             TRBrace # ts' \<Rightarrow> parse_after (JObject []) st ts'
           | TString k # TColon # ts' \<Rightarrow> parse_value (InObject [] k # st) ts'
           | _ \<Rightarrow> None)
      | _ \<Rightarrow> None)"
| "parse_after v [] ts = (if ts = [] then Some v else None)"
| "parse_after v (InArray acc # st) ts =
     (case ts of
        TComma # ts' \<Rightarrow> parse_value (InArray (v # acc) # st) ts'
      | TRBracket # ts' \<Rightarrow> parse_after (JArray (rev (v # acc))) st ts'
      | _ \<Rightarrow> None)"
| "parse_after v (InObject acc k # st) ts =
     (case ts of
        TComma # TString k' # TColon # ts' \<Rightarrow> parse_value (InObject ((k, v) # acc) k' # st) ts'
      | TRBrace # ts' \<Rightarrow> parse_after (JObject (rev ((k, v) # acc))) st ts'
      | _ \<Rightarrow> None)"

definition JSON_parse :: "jsstring \<Rightarrow> error + json" where
  "JSON_parse text =
     (case tokens text of
        None \<Rightarrow> Inl SyntaxError
      | Some ts \<Rightarrow>
          (case parse_value [] ts of
             None \<Rightarrow> Inl SyntaxError
           | Some v \<Rightarrow> Inr v))"

subsection \<open>Serialising an array of strings\<close>

text \<open>
  \<open>JSON.stringify\<close> writes a string between double quotes. It escapes the double quote,
  the backslash and the control characters that have a short escape; it writes every
  other code unit below 32 and every surrogate that is not part of a pair as
  \<^verbatim>\<open>\u\<close> and four lower-case hexadecimal digits; it copies everything else.
\<close>

definition hex_digit :: "nat \<Rightarrow> jschar" where
  "hex_digit n = (if n < 10 then 0x30 + word_of_nat n else 0x61 + word_of_nat (n - 10))"

definition UnicodeEscape :: "jschar \<Rightarrow> jsstring" where
  "UnicodeEscape c =
     [0x5C, 0x75, hex_digit (unat c div 4096 mod 16), hex_digit (unat c div 256 mod 16),
      hex_digit (unat c div 16 mod 16), hex_digit (unat c mod 16)]"

definition is_leading_surrogate :: "jschar \<Rightarrow> bool" where
  "is_leading_surrogate c = (0xD800 \<le> c \<and> c \<le> 0xDBFF)"

definition is_trailing_surrogate :: "jschar \<Rightarrow> bool" where
  "is_trailing_surrogate c = (0xDC00 \<le> c \<and> c \<le> 0xDFFF)"

definition quote_code_unit :: "jschar \<Rightarrow> jsstring" where
  "quote_code_unit c =
     (if c = 0x08 then [0x5C, 0x62]
      else if c = 0x09 then [0x5C, 0x74]
      else if c = 0x0A then [0x5C, 0x6E]
      else if c = 0x0C then [0x5C, 0x66]
      else if c = 0x0D then [0x5C, 0x72]
      else if c = 0x22 then [0x5C, 0x22]
      else if c = 0x5C then [0x5C, 0x5C]
      else if c < 0x20 \<or> is_leading_surrogate c \<or> is_trailing_surrogate c then UnicodeEscape c
      else [c])"

fun quote_code_units :: "jsstring \<Rightarrow> jsstring" where
  "quote_code_units [] = []"
| "quote_code_units [c] = quote_code_unit c"
| "quote_code_units (c # d # cs) =
     (if is_leading_surrogate c \<and> is_trailing_surrogate d
      then c # d # quote_code_units cs
      else quote_code_unit c @ quote_code_units (d # cs))"

definition QuoteJSONString :: "jsstring \<Rightarrow> jsstring" where
  "QuoteJSONString s = 0x22 # quote_code_units s @ [0x22]"

definition JSON_stringify :: "CaseType list \<Rightarrow> jsstring" where
  "JSON_stringify items = 0x5B # join [0x2C] (map QuoteJSONString items) @ [0x5D]"

section \<open>The cache\<close>

text \<open>
  The cache maps a key to a string, or to nothing (\<open>cache.get\<close> gives \<open>undefined\<close>).
  \<open>getPinnedCases\<close> and \<open>getRecentCases\<close> (lines 65-73) parse the stored string when
  it is truthy and give \<open>[]\<close> otherwise; their result is whatever \<open>JSON.parse\<close>
  returns. \<open>setPinnedCases\<close> and \<open>setRecentCases\<close> (lines 75-81) store the serialised
  list.
\<close>

type_synonym cache = "jsstring \<rightharpoonup> jsstring"

definition getPinnedCases :: "cache \<Rightarrow> error + json" where
  "getPinnedCases cache =
     (case cache (js ''pinned'') of
        None \<Rightarrow> Inr (JArray [])
      | Some stored \<Rightarrow> if truthy stored then JSON_parse stored else Inr (JArray []))"

definition getRecentCases :: "cache \<Rightarrow> error + json" where
  "getRecentCases cache =
     (case cache (js ''recent'') of
        None \<Rightarrow> Inr (JArray [])
      | Some stored \<Rightarrow> if truthy stored then JSON_parse stored else Inr (JArray []))"

definition setPinnedCases :: "CaseType list \<Rightarrow> cache \<Rightarrow> cache" where
  "setPinnedCases items cache = cache(js ''pinned'' \<mapsto> JSON_stringify items)"

definition setRecentCases :: "CaseType list \<Rightarrow> cache \<Rightarrow> cache" where
  "setRecentCases items cache = cache(js ''recent'' \<mapsto> JSON_stringify items)"

text \<open>The value that an array of the given strings is.\<close>

definition json_of_cases :: "CaseType list \<Rightarrow> json" where
  "json_of_cases items = JArray (map JString items)"


section \<open>Helper lemmas on the recent list\<close>

lemma filter_neq_removeAll: "filter (\<lambda>c. c \<noteq> i) xs = removeAll i xs"
  by (induction xs) auto

lemma recent_after_copy:
  "recent (CopyToClipboard_onAction p st) =
     (if pinned_prop p then recent st else take 4 (case_prop p # removeAll (case_prop p) (recent st)))"
  by (simp add: CopyToClipboard_onAction_def filter_neq_removeAll)

lemma pinned_after_copy: "pinned (CopyToClipboard_onAction p st) = pinned st"
  by (simp add: CopyToClipboard_onAction_def)

lemma paste_is_copy:
  "PasteToActiveApp_onAction (Some app) p st = Some (CopyToClipboard_onAction p st)"
  by (simp add: PasteToActiveApp_onAction_def CopyToClipboard_onAction_def)

lemma copy_keeps_bound_distinct:
  assumes "length (recent st) \<le> 4" and "distinct (recent st)"
  shows "length (recent (CopyToClipboard_onAction p st)) \<le> 4
       \<and> distinct (recent (CopyToClipboard_onAction p st))"
proof (cases "pinned_prop p")
  case True
  with assms show ?thesis by (simp add: recent_after_copy)
next
  case False
  have "distinct (case_prop p # removeAll (case_prop p) (recent st))"
    using assms(2) by (simp add: distinct_removeAll)
  then have "distinct (take 4 (case_prop p # removeAll (case_prop p) (recent st)))"
    by (rule distinct_take)
  with False show ?thesis by (simp add: recent_after_copy)
qed

lemma copy_all_keeps_bound_distinct:
  "length (recent st) \<le> 4 \<Longrightarrow> distinct (recent st) \<Longrightarrow>
   length (recent (copy_all ps st)) \<le> 4 \<and> distinct (recent (copy_all ps st))"
proof (induction ps arbitrary: st)
  case Nil
  then show ?case by simp
next
  case (Cons p ps)
  from copy_keeps_bound_distinct [OF Cons.prems, of p]
  show ?case using Cons.IH by simp
qed

lemma copy_unpinned_item:
  "CopyToClipboard_onAction (unpinned_item i m r) \<lparr>pinned = ps, recent = xs\<rparr>
     = \<lparr>pinned = ps, recent = take 4 (i # removeAll i xs)\<rparr>"
  by (simp add: CopyToClipboard_onAction_def unpinned_item_def filter_neq_removeAll)

lemma removeAll_after_use: "removeAll i (take 4 (i # removeAll i xs)) = take 3 (removeAll i xs)"
proof -
  have "i \<notin> set (take 3 (removeAll i xs))" by (auto dest: in_set_takeD)
  then show ?thesis by (simp add: take_Cons')
qed

section \<open>Claims on the recent list\<close>

text \<open>
  C1. For every state of the recent list and every identifier, using the identifier
  from an item that is not pinned gives the list with every occurrence of the identifier
  removed, the identifier put in front and the result cut to its first 4 elements (the
  specification's \<open>use(id, false)\<close>). Starting from the empty list, using four distinct
  identifiers A, B, C, D in this order gives [D, C, B, A]; using A again gives
  [A, D, C, B]; using a fifth distinct identifier E then gives [E, A, D, C].
\<close>

theorem use_unpinned_moves_to_front:
  "recent (CopyToClipboard_onAction (unpinned_item i m r) st) = spec_use i False (recent st)
   \<and> (distinct [A, B, C, D, E] \<longrightarrow>
        recent (copy_all [unpinned_item A m1 r1, unpinned_item B m2 r2,
                          unpinned_item C m3 r3, unpinned_item D m4 r4]
                  \<lparr>pinned = ps, recent = []\<rparr>) = [D, C, B, A]
      \<and> recent (copy_all [unpinned_item A m1 r1, unpinned_item B m2 r2,
                          unpinned_item C m3 r3, unpinned_item D m4 r4,
                          unpinned_item A m5 r5]
                  \<lparr>pinned = ps, recent = []\<rparr>) = [A, D, C, B]
      \<and> recent (copy_all [unpinned_item A m1 r1, unpinned_item B m2 r2,
                          unpinned_item C m3 r3, unpinned_item D m4 r4,
                          unpinned_item A m5 r5, unpinned_item E m6 r6]
                  \<lparr>pinned = ps, recent = []\<rparr>) = [E, A, D, C])"
proof -
  have general: "recent (CopyToClipboard_onAction (unpinned_item i m r) st)
                   = spec_use i False (recent st)"
    by (simp add: recent_after_copy unpinned_item_def spec_use_def capacity_def)
  have scenario: "recent (copy_all [unpinned_item A m1 r1, unpinned_item B m2 r2,
                          unpinned_item C m3 r3, unpinned_item D m4 r4]
                  \<lparr>pinned = ps, recent = []\<rparr>) = [D, C, B, A]
      \<and> recent (copy_all [unpinned_item A m1 r1, unpinned_item B m2 r2,
                          unpinned_item C m3 r3, unpinned_item D m4 r4,
                          unpinned_item A m5 r5]
                  \<lparr>pinned = ps, recent = []\<rparr>) = [A, D, C, B]
      \<and> recent (copy_all [unpinned_item A m1 r1, unpinned_item B m2 r2,
                          unpinned_item C m3 r3, unpinned_item D m4 r4,
                          unpinned_item A m5 r5, unpinned_item E m6 r6]
                  \<lparr>pinned = ps, recent = []\<rparr>) = [E, A, D, C]"
    if "distinct [A, B, C, D, E]"
    using that by (auto simp: copy_unpinned_item take_Cons')
  from general scenario show ?thesis by blast
qed

theorem use_unpinned_moves_to_front_witness:
  "distinct [js ''camelCase'', js ''snake_case'', js ''kebab-case'', js ''PascalCase'', js ''dot.case'']
   \<and> recent (CopyToClipboard_onAction (unpinned_item (js ''camelCase'') [] True)
        \<lparr>pinned = [], recent = [js ''snake_case'', js ''camelCase'']\<rparr>)
       = [js ''camelCase'', js ''snake_case'']
   \<and> recent (copy_all [unpinned_item (js ''camelCase'') [] False, unpinned_item (js ''snake_case'') [] False,
                       unpinned_item (js ''kebab-case'') [] False, unpinned_item (js ''PascalCase'') [] False,
                       unpinned_item (js ''camelCase'') [] True, unpinned_item (js ''dot.case'') [] False]
               \<lparr>pinned = [], recent = []\<rparr>)
       = [js ''dot.case'', js ''camelCase'', js ''PascalCase'', js ''kebab-case'']"
proof -
  have d: "distinct [js ''camelCase'', js ''snake_case'', js ''kebab-case'', js ''PascalCase'', js ''dot.case'']"
    by (simp add: js_def)
  have g: "spec_use (js ''camelCase'') False [js ''snake_case'', js ''camelCase'']
             = [js ''camelCase'', js ''snake_case'']"
    by (simp add: spec_use_def capacity_def js_def)
  from use_unpinned_moves_to_front
         [of "js ''camelCase''" "[]" True "\<lparr>pinned = [], recent = [js ''snake_case'', js ''camelCase'']\<rparr>"
             "js ''camelCase''" "js ''snake_case''" "js ''kebab-case''" "js ''PascalCase''" "js ''dot.case''"
             "[]" False "[]" False "[]" False "[]" False "[]" "[]" True "[]" False]
       d g
  show ?thesis by simp
qed

text \<open>
  C2. Whatever sequence of use actions is applied to an initially empty recent list,
  the list never has more than 4 elements and never holds an identifier twice. The
  sequence may mix items that are pinned and items that are not; a sequence of
  \<open>use(id, false)\<close> calls is the case where none is pinned.
\<close>

theorem recent_bounded_and_distinct:
  "length (recent (copy_all ps \<lparr>pinned = pl, recent = []\<rparr>)) \<le> 4
   \<and> distinct (recent (copy_all ps \<lparr>pinned = pl, recent = []\<rparr>))"
  by (rule copy_all_keeps_bound_distinct) simp_all

text \<open>
  C8. For every state and every identifier, using the identifier from an item that is
  shown as pinned leaves the recent list (indeed the whole state) as it was.
\<close>

theorem use_pinned_is_noop:
  "pinned_prop p \<Longrightarrow> CopyToClipboard_onAction p st = st
     \<and> PasteToActiveApp_onAction (Some app) p st = Some st
     \<and> recent (CopyToClipboard_onAction p st) = spec_use (case_prop p) True (recent st)"
  by (simp add: CopyToClipboard_onAction_def PasteToActiveApp_onAction_def spec_use_def)

theorem use_pinned_is_noop_witness:
  "recent (CopyToClipboard_onAction
       \<lparr>case_prop = js ''camelCase'', modified_prop = js ''helloWorld'', pinned_prop = True, recent_prop = False\<rparr>
       \<lparr>pinned = [js ''camelCase''], recent = [js ''snake_case'']\<rparr>) = [js ''snake_case'']"
  using use_pinned_is_noop
    [of "\<lparr>case_prop = js ''camelCase'', modified_prop = js ''helloWorld'', pinned_prop = True, recent_prop = False\<rparr>"
        "\<lparr>pinned = [js ''camelCase''], recent = [js ''snake_case'']\<rparr>"]
  by simp

text \<open>
  C10. For every state and every identifier, using the identifier twice in a row from
  an item that is not pinned gives the same recent list as using it once; the same
  holds for the paste action.
\<close>

theorem use_twice_is_use_once:
  "recent (CopyToClipboard_onAction (unpinned_item i m' r')
             (CopyToClipboard_onAction (unpinned_item i m r) st))
     = recent (CopyToClipboard_onAction (unpinned_item i m r) st)
   \<and> map_option recent
        (Option.bind (PasteToActiveApp_onAction (Some app) (unpinned_item i m r) st)
                     (PasteToActiveApp_onAction (Some app) (unpinned_item i m' r')))
     = map_option recent (PasteToActiveApp_onAction (Some app) (unpinned_item i m r) st)"
proof -
  let ?xs = "recent st"
  have once: "recent (CopyToClipboard_onAction (unpinned_item i m r) st) = take 4 (i # removeAll i ?xs)"
    by (simp add: recent_after_copy unpinned_item_def)
  have "recent (CopyToClipboard_onAction (unpinned_item i m' r')
             (CopyToClipboard_onAction (unpinned_item i m r) st))
          = take 4 (i # removeAll i (take 4 (i # removeAll i ?xs)))"
    by (simp add: recent_after_copy unpinned_item_def)
  also have "\<dots> = take 4 (i # take 3 (removeAll i ?xs))"
    by (simp only: removeAll_after_use)
  also have "\<dots> = take 4 (i # removeAll i ?xs)"
    by (simp add: take_Cons')
  finally have copy: "recent (CopyToClipboard_onAction (unpinned_item i m' r')
             (CopyToClipboard_onAction (unpinned_item i m r) st))
     = recent (CopyToClipboard_onAction (unpinned_item i m r) st)"
    using once by simp
  then show ?thesis
    by (simp add: paste_is_copy)
qed

section \<open>Lines, rendered items and pinning\<close>

lemma push_lines_map: "push_lines f ls acc = acc @ map f ls"
  by (induction ls arbitrary: acc) auto

lemma split_nl_nonempty: "split_nl s \<noteq> []"
  by (induction s) (auto split: list.splits)

lemma join_Cons_head: "join sep ((a # l) # ls) = a # join sep (l # ls)"
  by (cases ls) simp_all

lemma join_split_nl: "join [0x0A] (split_nl s) = s"
  by (induction s) (auto simp: join_Cons_head split: list.splits)

lemma split_nl_no_nl: "l \<in> set (split_nl s) \<Longrightarrow> 0x0A \<notin> set l"
  by (induction s arbitrary: l) (auto split: list.splits if_splits)

lemma split_nl_append_nl:
  "0x0A \<notin> set l \<Longrightarrow> split_nl (l @ 0x0A # s) = l # split_nl s"
  by (induction l) (auto split: list.splits)

lemma split_nl_plain: "0x0A \<notin> set l \<Longrightarrow> split_nl l = [l]"
  by (induction l) (auto split: list.splits)

lemma split_join_nl:
  "ls \<noteq> [] \<Longrightarrow> \<forall>l \<in> set ls. 0x0A \<notin> set l \<Longrightarrow> split_nl (join [0x0A] ls) = ls"
  by (induction "[0x0A :: jschar]" ls rule: join.induct) (auto simp: split_nl_plain split_nl_append_nl)


lemma Command_items_cases:
  assumes "p \<in> set (Command_items keys functions preferences clipboard st)"
  shows "(pinned_prop p \<and> \<not> recent_prop p \<and> case_prop p \<in> set (pinned st))
       \<or> (\<not> pinned_prop p \<and> recent_prop p \<and> case_prop p \<in> set (recent st))
       \<or> (\<not> pinned_prop p \<and> \<not> recent_prop p \<and> case_prop p \<in> set keys
            \<and> case_prop p \<notin> set (recent st) \<and> case_prop p \<notin> set (pinned st))"
  using assms by (auto simp: Command_items_def)

lemma recent_item_rendered:
  "i \<in> set (recent st) \<Longrightarrow>
   \<lparr>case_prop = i, modified_prop = modifyCasesWrapper clipboard (functions i),
    pinned_prop = False, recent_prop = True\<rparr>
     \<in> set (Command_items keys functions preferences clipboard st)"
  by (simp add: Command_items_def)

lemma PinCase_result:
  assumes "PinCase_onAction p st = Some st'"
  shows "\<not> pinned_prop p" and "pinned st' = case_prop p # pinned st"
    and "recent st' = (if recent_prop p then removeAll (case_prop p) (recent st) else recent st)"
  using assms by (auto simp: PinCase_onAction_def filter_neq_removeAll split: if_splits)

lemma pin_keeps_disjoint:
  assumes "p \<in> set (Command_items keys functions preferences clipboard st)"
    and "PinCase_onAction p st = Some st'"
    and "set (pinned st) \<inter> set (recent st) = {}"
  shows "set (pinned st') \<inter> set (recent st') = {}"
proof -
  note r = PinCase_result [OF assms(2)]
  from Command_items_cases [OF assms(1)] r(1)
  have "recent_prop p \<or> case_prop p \<notin> set (recent st)" by blast
  with assms(3) r(2,3) show ?thesis by auto
qed

lemma no_second_pin:
  assumes "p \<in> set (Command_items keys functions preferences clipboard st)"
    and "PinCase_onAction p st = Some st'"
    and "q \<in> set (Command_items keys functions preferences clipboard' st')"
    and "case_prop q = case_prop p"
  shows "PinCase_onAction q st' = None"
proof -
  note r = PinCase_result [OF assms(2)]
  from Command_items_cases [OF assms(1)] r(1)
  have "recent_prop p \<or> case_prop p \<notin> set (recent st)" by blast
  then have "case_prop p \<notin> set (recent st')" using r(3) by auto
  moreover have "case_prop p \<in> set (pinned st')" using r(2) by simp
  ultimately have "pinned_prop q"
    using Command_items_cases [OF assms(3)] assms(4) by auto
  then show ?thesis by (simp add: PinCase_onAction_def)
qed

lemma recent_after_copy_subset:
  "set (recent (CopyToClipboard_onAction p st)) \<subseteq> insert (case_prop p) (set (recent st))"
  by (auto simp: recent_after_copy dest!: in_set_takeD)

lemma copy_keeps_disjoint:
  assumes "p \<in> set (Command_items keys functions preferences clipboard st)"
    and "set (pinned st) \<inter> set (recent st) = {}"
  shows "set (pinned st) \<inter> set (recent (CopyToClipboard_onAction p st)) = {}"
proof (cases "pinned_prop p")
  case True
  with assms(2) show ?thesis by (simp add: recent_after_copy)
next
  case False
  with Command_items_cases [OF assms(1)] assms(2)
  have "case_prop p \<notin> set (pinned st)" by auto
  with assms(2) recent_after_copy_subset [of p st] show ?thesis by auto
qed

lemma reachable_invariant:
  "reachable keys functions preferences st \<Longrightarrow>
     set (pinned st) \<inter> set (recent st) = {} \<and> distinct (pinned st)
     \<and> distinct (recent st) \<and> length (recent st) \<le> 4"
proof (induction rule: reachable.induct)
  case start
  show ?case by (simp add: initial_state_def)
next
  case (copy st p clipboard)
  from copy_keeps_disjoint [OF copy.hyps(2)] copy.IH
  have "set (pinned st) \<inter> set (recent (CopyToClipboard_onAction p st)) = {}"
    by simp
  with copy.IH copy_keeps_bound_distinct [of st p] show ?case
    by (simp add: pinned_after_copy)
next
  case (paste st p clipboard frontmostApp st')
  then have st': "st' = CopyToClipboard_onAction p st"
    by (cases frontmostApp) (auto simp: PasteToActiveApp_onAction_def CopyToClipboard_onAction_def)
  from copy_keeps_disjoint [OF paste.hyps(2)] paste.IH
  have "set (pinned st) \<inter> set (recent (CopyToClipboard_onAction p st)) = {}"
    by simp
  with paste.IH copy_keeps_bound_distinct [of st p] show ?case
    by (simp add: pinned_after_copy st')
next
  case (pin st p clipboard st')
  note r = PinCase_result [OF pin.hyps(3)]
  have "case_prop p \<notin> set (pinned st)"
    using Command_items_cases [OF pin.hyps(2)] r(1) pin.IH by auto
  moreover have "set (pinned st') \<inter> set (recent st') = {}"
    using pin_keeps_disjoint [OF pin.hyps(2,3)] pin.IH by simp
  moreover have "distinct (recent st') \<and> length (recent st') \<le> 4"
    using r(3) pin.IH by (auto simp: distinct_removeAll intro: le_trans [OF length_removeAll_less_eq])
  ultimately show ?case using r(2) pin.IH by simp
next
  case (remove_pinned st p clipboard st')
  then show ?case by (auto simp: RemovePinnedCase_onAction_def split: if_splits)
next
  case (clear_pinned st p clipboard st')
  then show ?case by (auto simp: ClearPinnedCases_onAction_def split: if_splits)
next
  case (remove_recent st p clipboard st')
  then show ?case
    by (auto simp: RemoveRecentCase_onAction_def split: if_splits intro: le_trans [OF length_filter_le])
next
  case (clear_recent st p clipboard st')
  then show ?case by (auto simp: ClearRecentCases_onAction_def split: if_splits)
qed

section \<open>Claims on pinning\<close>

text \<open>
  C3. Pinning an identifier that is in the recent list: the rendered list holds an item
  for it that offers the pin action, and the action of any such item removes the
  identifier from the recent list, leaving every other identifier of the recent list in
  its place, and makes it the first element of the pinned list, in front of the
  identifiers pinned before. When no identifier was in both lists before the action, as in
  every state the component reaches from the empty lists, none is in both lists after it.
\<close>

theorem pin_recent_moves_to_pinned:
  "i \<in> set (recent st) \<Longrightarrow>
   (\<exists>p \<in> set (Command_items keys functions preferences clipboard st).
       case_prop p = i \<and> PinCase_onAction p st \<noteq> None)
   \<and> (\<forall>p st'. p \<in> set (Command_items keys functions preferences clipboard st)
          \<and> case_prop p = i \<and> PinCase_onAction p st = Some st' \<longrightarrow>
          recent st' = filter (\<lambda>c. c \<noteq> i) (recent st)
          \<and> i \<notin> set (recent st')
          \<and> pinned st' = i # pinned st
          \<and> (set (pinned st) \<inter> set (recent st) = {} \<or> reachable keys functions preferences st \<longrightarrow>
               set (pinned st') \<inter> set (recent st') = {}))"
proof (intro conjI allI impI)
  assume i: "i \<in> set (recent st)"
  let ?p = "\<lparr>case_prop = i, modified_prop = modifyCasesWrapper clipboard (functions i),
             pinned_prop = False, recent_prop = True\<rparr>"
  have "?p \<in> set (Command_items keys functions preferences clipboard st)"
    using i by (rule recent_item_rendered)
  moreover have "case_prop ?p = i \<and> PinCase_onAction ?p st \<noteq> None"
    by (simp add: PinCase_onAction_def)
  ultimately show "\<exists>p \<in> set (Command_items keys functions preferences clipboard st).
       case_prop p = i \<and> PinCase_onAction p st \<noteq> None" by blast
next
  fix p st'
  assume i: "i \<in> set (recent st)"
    and p: "p \<in> set (Command_items keys functions preferences clipboard st)
          \<and> case_prop p = i \<and> PinCase_onAction p st = Some st'"
  note r = PinCase_result [of p st st']
  from Command_items_cases [of p keys "functions" preferences clipboard st] p i r(1)
  have rp: "recent_prop p" by auto
  show f: "recent st' = filter (\<lambda>c. c \<noteq> i) (recent st)"
    using r(3) p rp by (simp add: filter_neq_removeAll)
  show "i \<notin> set (recent st')" unfolding f by simp
  show "pinned st' = i # pinned st" using r(2) p by auto
next
  fix p st'
  assume "p \<in> set (Command_items keys functions preferences clipboard st)
          \<and> case_prop p = i \<and> PinCase_onAction p st = Some st'"
    and "set (pinned st) \<inter> set (recent st) = {} \<or> reachable keys functions preferences st"
  then show "set (pinned st') \<inter> set (recent st') = {}"
    using pin_keeps_disjoint [of p keys "functions" preferences clipboard st st']
      reachable_invariant [of keys "functions" preferences st] by blast
qed

theorem pin_recent_moves_to_pinned_witness:
  "js ''camelCase'' \<in> set (recent \<lparr>pinned = [js ''snake_case''],
                                     recent = [js ''kebab-case'', js ''camelCase'', js ''dot.case'']\<rparr>)
   \<and> \<lparr>case_prop = js ''camelCase'', modified_prop = js ''hello'', pinned_prop = False, recent_prop = True\<rparr>
       \<in> set (Command_items [js ''camelCase'', js ''snake_case'', js ''kebab-case'', js ''dot.case'']
                identity_functions all_preferences (js ''hello'')
                \<lparr>pinned = [js ''snake_case''],
                 recent = [js ''kebab-case'', js ''camelCase'', js ''dot.case'']\<rparr>)
   \<and> PinCase_onAction
         \<lparr>case_prop = js ''camelCase'', modified_prop = js ''hello'', pinned_prop = False, recent_prop = True\<rparr>
         \<lparr>pinned = [js ''snake_case''], recent = [js ''kebab-case'', js ''camelCase'', js ''dot.case'']\<rparr>
       = Some \<lparr>pinned = [js ''camelCase'', js ''snake_case''],
               recent = [js ''kebab-case'', js ''dot.case'']\<rparr>
   \<and> set (pinned \<lparr>pinned = [js ''snake_case''],
                    recent = [js ''kebab-case'', js ''camelCase'', js ''dot.case'']\<rparr>)
       \<inter> set (recent \<lparr>pinned = [js ''snake_case''],
                        recent = [js ''kebab-case'', js ''camelCase'', js ''dot.case'']\<rparr>) = {}
   \<and> recent \<lparr>pinned = [js ''camelCase'', js ''snake_case''], recent = [js ''kebab-case'', js ''dot.case'']\<rparr>
       = filter (\<lambda>c. c \<noteq> js ''camelCase'')
           (recent \<lparr>pinned = [js ''snake_case''],
                    recent = [js ''kebab-case'', js ''camelCase'', js ''dot.case'']\<rparr>)
   \<and> pinned \<lparr>pinned = [js ''camelCase'', js ''snake_case''], recent = [js ''kebab-case'', js ''dot.case'']\<rparr>
       = js ''camelCase''
         # pinned \<lparr>pinned = [js ''snake_case''],
                    recent = [js ''kebab-case'', js ''camelCase'', js ''dot.case'']\<rparr>
   \<and> set (pinned \<lparr>pinned = [js ''camelCase'', js ''snake_case''],
                    recent = [js ''kebab-case'', js ''dot.case'']\<rparr>)
       \<inter> set (recent \<lparr>pinned = [js ''camelCase'', js ''snake_case''],
                        recent = [js ''kebab-case'', js ''dot.case'']\<rparr>) = {}"
proof -
  let ?i = "js ''camelCase''"
  let ?keys = "[js ''camelCase'', js ''snake_case'', js ''kebab-case'', js ''dot.case'']"
  let ?st = "\<lparr>pinned = [js ''snake_case''],
             recent = [js ''kebab-case'', js ''camelCase'', js ''dot.case'']\<rparr>"
  let ?st' = "\<lparr>pinned = [js ''camelCase'', js ''snake_case''],
              recent = [js ''kebab-case'', js ''dot.case'']\<rparr>"
  let ?p = "\<lparr>case_prop = js ''camelCase'', modified_prop = js ''hello'', pinned_prop = False, recent_prop = True\<rparr>"
  have h: "?i \<in> set (recent ?st)" by simp
  have m: "?p \<in> set (Command_items ?keys identity_functions all_preferences (js ''hello'') ?st)"
    by (simp add: Command_items_def modifyCasesWrapper_def identity_functions_def js_def)
  have c: "case_prop ?p = ?i" by simp
  have s: "PinCase_onAction ?p ?st = Some ?st'"
    by (simp add: PinCase_onAction_def js_def)
  have d: "set (pinned ?st) \<inter> set (recent ?st) = {}" by (simp add: js_def)
  note t = pin_recent_moves_to_pinned
             [OF h, of ?keys identity_functions all_preferences "js ''hello''",
              THEN conjunct2, rule_format, OF conjI [OF m conjI [OF c s]]]
  note t1 = t [THEN conjunct1]
  note t3 = t [THEN conjunct2, THEN conjunct2, THEN conjunct1]
  note t4 = t [THEN conjunct2, THEN conjunct2, THEN conjunct2, rule_format, OF disjI1 [OF d]]
  show ?thesis
    by (rule conjI h m s d t1 t3 t4)+
qed

text \<open>
  C5. Pinning is offered through the \<open>Pin Case\<close> action of a rendered item, and only
  items not shown as pinned render it. In every state whose two lists share no identifier,
  as is every state the component reaches from the empty lists, no item for an identifier
  that is already in the pinned list offers the action: pinning it is not possible and the
  pinned list stays as it is. In every state, after an item has pinned its identifier
  (which puts the identifier in front of the pinned list), no item for this identifier in
  the list rendered afterwards offers the action: pinning the identifier again leaves the
  pinned list as the first pin made it.
\<close>

theorem pin_is_idempotent:
  "(set (pinned st) \<inter> set (recent st) = {} \<or> reachable keys functions preferences st \<longrightarrow>
      (\<forall>q \<in> set (Command_items keys functions preferences clipboard st).
          case_prop q \<in> set (pinned st) \<longrightarrow> PinCase_onAction q st = None))
   \<and> (\<forall>p st'. p \<in> set (Command_items keys functions preferences clipboard st)
          \<and> PinCase_onAction p st = Some st' \<longrightarrow>
          pinned st' = case_prop p # pinned st
          \<and> (\<forall>q \<in> set (Command_items keys functions preferences clipboard' st').
                case_prop q = case_prop p \<longrightarrow> PinCase_onAction q st' = None))"
proof (intro conjI allI ballI impI)
  fix q
  assume "set (pinned st) \<inter> set (recent st) = {} \<or> reachable keys functions preferences st"
    and q: "q \<in> set (Command_items keys functions preferences clipboard st)"
    and c: "case_prop q \<in> set (pinned st)"
  then have d: "set (pinned st) \<inter> set (recent st) = {}"
    using reachable_invariant [of keys "functions" preferences st] by blast
  from Command_items_cases [OF q] c d have "pinned_prop q" by auto
  then show "PinCase_onAction q st = None" by (simp add: PinCase_onAction_def)
next
  fix p st'
  assume "p \<in> set (Command_items keys functions preferences clipboard st)
          \<and> PinCase_onAction p st = Some st'"
  then show "pinned st' = case_prop p # pinned st"
    using PinCase_result(2) [of p st st'] by blast
next
  fix p st' q
  assume "p \<in> set (Command_items keys functions preferences clipboard st)
          \<and> PinCase_onAction p st = Some st'"
    and "q \<in> set (Command_items keys functions preferences clipboard' st')"
    and "case_prop q = case_prop p"
  then show "PinCase_onAction q st' = None"
    using no_second_pin [of p keys "functions" preferences clipboard st st' q clipboard'] by blast
qed

theorem pin_is_idempotent_witness:
  "PinCase_onAction
       \<lparr>case_prop = js ''camelCase'', modified_prop = [], pinned_prop = False, recent_prop = True\<rparr>
       \<lparr>pinned = [js ''snake_case''], recent = [js ''camelCase'', js ''kebab-case'']\<rparr>
     = Some \<lparr>pinned = [js ''camelCase'', js ''snake_case''], recent = [js ''kebab-case'']\<rparr>
   \<and> set (pinned \<lparr>pinned = [js ''camelCase'', js ''snake_case''], recent = [js ''kebab-case'']\<rparr>)
       \<inter> set (recent \<lparr>pinned = [js ''camelCase'', js ''snake_case''], recent = [js ''kebab-case'']\<rparr>) = {}
   \<and> js ''camelCase''
       \<in> set (pinned \<lparr>pinned = [js ''camelCase'', js ''snake_case''], recent = [js ''kebab-case'']\<rparr>)
   \<and> \<lparr>case_prop = js ''camelCase'', modified_prop = [], pinned_prop = True, recent_prop = False\<rparr>
       \<in> set (Command_items [js ''camelCase'', js ''snake_case'', js ''kebab-case'']
                identity_functions all_preferences []
                \<lparr>pinned = [js ''camelCase'', js ''snake_case''], recent = [js ''kebab-case'']\<rparr>)
   \<and> PinCase_onAction
         \<lparr>case_prop = js ''camelCase'', modified_prop = [], pinned_prop = True, recent_prop = False\<rparr>
         \<lparr>pinned = [js ''camelCase'', js ''snake_case''], recent = [js ''kebab-case'']\<rparr> = None"
proof -
  let ?keys = "[js ''camelCase'', js ''snake_case'', js ''kebab-case'']"
  let ?st = "\<lparr>pinned = [js ''snake_case''], recent = [js ''camelCase'', js ''kebab-case'']\<rparr>"
  let ?st' = "\<lparr>pinned = [js ''camelCase'', js ''snake_case''], recent = [js ''kebab-case'']\<rparr>"
  let ?p = "\<lparr>case_prop = js ''camelCase'', modified_prop = [], pinned_prop = False, recent_prop = True\<rparr>"
  let ?q = "\<lparr>case_prop = js ''camelCase'', modified_prop = [], pinned_prop = True, recent_prop = False\<rparr>"
  have m: "?p \<in> set (Command_items ?keys identity_functions all_preferences [] ?st)"
    by (simp add: Command_items_def modifyCasesWrapper_def identity_functions_def js_def)
  have s: "PinCase_onAction ?p ?st = Some ?st'"
    by (simp add: PinCase_onAction_def js_def)
  have d: "set (pinned ?st') \<inter> set (recent ?st') = {}" by (simp add: js_def)
  have c: "js ''camelCase'' \<in> set (pinned ?st')" by simp
  have q: "?q \<in> set (Command_items ?keys identity_functions all_preferences [] ?st')"
    by (simp add: Command_items_def modifyCasesWrapper_def identity_functions_def)
  note first = pin_is_idempotent [of ?st' ?keys identity_functions all_preferences "[]" "[]",
                 THEN conjunct1, rule_format, OF disjI1 [OF d] q]
  note twice = pin_is_idempotent [of ?st ?keys identity_functions all_preferences "[]" "[]",
                 THEN conjunct2, rule_format, OF conjI [OF m s]]
  from first c have n1: "PinCase_onAction ?q ?st' = None" by simp
  from twice have "pinned ?st' = case_prop ?p # pinned ?st" by (rule conjunct1)
  moreover from twice q have "PinCase_onAction ?q ?st' = None" by auto
  ultimately show ?thesis using s d c q n1 by simp
qed

text \<open>
  The handler itself has no test for membership: only the rendered list keeps an
  identifier from being pinned twice. In a state that holds an identifier in both lists,
  which the component does not reach from the empty lists, the item of the recent section
  offers the pin action and the action adds a second occurrence.
\<close>

lemma pin_handler_prepends_without_test:
  "\<lparr>case_prop = js ''camelCase'', modified_prop = [], pinned_prop = False, recent_prop = True\<rparr>
     \<in> set (Command_items [js ''camelCase''] identity_functions all_preferences []
              \<lparr>pinned = [js ''camelCase''], recent = [js ''camelCase'']\<rparr>)
   \<and> PinCase_onAction
         \<lparr>case_prop = js ''camelCase'', modified_prop = [], pinned_prop = False, recent_prop = True\<rparr>
         \<lparr>pinned = [js ''camelCase''], recent = [js ''camelCase'']\<rparr>
       = Some \<lparr>pinned = [js ''camelCase'', js ''camelCase''], recent = []\<rparr>"
  by (simp add: Command_items_def modifyCasesWrapper_def identity_functions_def PinCase_onAction_def)

section \<open>Claim on reading the text\<close>

text \<open>
  C7. \<open>readContent\<close> raises \<open>NoTextError\<close> exactly when neither the clipboard nor the
  selection yields a non-empty text; when at least one of them does, it returns a
  non-empty text that is the clipboard's or the selection's.
\<close>

theorem readContent_raises_iff_no_text:
  "(readContent preferredSource clipboardText selectedText = Inl NoTextError
      \<longleftrightarrow> \<not> truthy_text clipboardText \<and> \<not> truthy (getSelection selectedText))
   \<and> (truthy_text clipboardText \<or> truthy (getSelection selectedText) \<longrightarrow>
        (\<exists>t. readContent preferredSource clipboardText selectedText = Inr t \<and> truthy t
              \<and> (clipboardText = Some t \<or> selectedText = Inr t)))"
  by (auto simp: readContent_def truthy_text_def Let_def getSelection_def truthy_def
           split: option.splits sum.splits)

theorem readContent_raises_iff_no_text_witness:
  "truthy (getSelection (Inr (js ''hello world'')))
   \<and> readContent (js ''clipboard'') (Some []) (Inr (js ''hello world'')) = Inr (js ''hello world'')
   \<and> readContent (js ''clipboard'') (Some []) (Inl HostError) = Inl NoTextError"
proof -
  have h: "truthy (getSelection (Inr (js ''hello world'')))"
    by (simp add: getSelection_def truthy_def js_def)
  have n: "\<not> truthy_text (Some []) \<and> \<not> truthy (getSelection (Inl HostError))"
    by (simp add: getSelection_def truthy_def truthy_text_def)
  from readContent_raises_iff_no_text [of "js ''clipboard''" "Some []" "Inr (js ''hello world'')"] h
  have "\<exists>t. readContent (js ''clipboard'') (Some []) (Inr (js ''hello world'')) = Inr t
            \<and> (Some [] = Some t \<or> Inr (js ''hello world'') = (Inr t :: error + jsstring)) \<and> truthy t"
    by blast
  then have "readContent (js ''clipboard'') (Some []) (Inr (js ''hello world'')) = Inr (js ''hello world'')"
    by (auto simp: truthy_def)
  moreover from readContent_raises_iff_no_text [of "js ''clipboard''" "Some []" "Inl HostError"] n
  have "readContent (js ''clipboard'') (Some []) (Inl HostError) = Inl NoTextError"
    by blast
  ultimately show ?thesis using h by simp
qed

section \<open>Claim on the line-wise transformation\<close>

text \<open>
  C9 (as amended). For every input and every case function, \<open>modifyCasesWrapper\<close> returns
  the lines of the input, each transformed by the function, joined by line feeds. When the
  function maps text without a line feed to text without a line feed, the lines of the
  result are the transformed lines of the input, so both have the same number of lines.
\<close>

theorem modifyCasesWrapper_maps_lines:
  "modifyCasesWrapper input f = join [0x0A] (map f (split_nl input))
   \<and> ((\<forall>l. 0x0A \<notin> set l \<longrightarrow> 0x0A \<notin> set (f l)) \<longrightarrow>
        split_nl (modifyCasesWrapper input f) = map f (split_nl input)
        \<and> length (split_nl (modifyCasesWrapper input f)) = length (split_nl input))"
proof (intro conjI impI)
  show eq: "modifyCasesWrapper input f = join [0x0A] (map f (split_nl input))"
    by (simp add: modifyCasesWrapper_def push_lines_map)
  assume f: "\<forall>l. 0x0A \<notin> set l \<longrightarrow> 0x0A \<notin> set (f l)"
  have "\<forall>l \<in> set (map f (split_nl input)). 0x0A \<notin> set l"
    using f split_nl_no_nl by auto
  moreover have "map f (split_nl input) \<noteq> []"
    by (simp add: split_nl_nonempty)
  ultimately show s: "split_nl (modifyCasesWrapper input f) = map f (split_nl input)"
    unfolding eq by (rule split_join_nl [rotated])
  then show "length (split_nl (modifyCasesWrapper input f)) = length (split_nl input)"
    by simp
qed

theorem modifyCasesWrapper_maps_lines_witness:
  "modifyCasesWrapper [0x61, 0x62, 0x0A, 0x63, 0x64] rev = [0x62, 0x61, 0x0A, 0x64, 0x63]
   \<and> length (split_nl (modifyCasesWrapper [0x61, 0x62, 0x0A, 0x63, 0x64] rev)) = 2"
proof -
  have h: "\<forall>l. (0x0A :: jschar) \<notin> set l \<longrightarrow> 0x0A \<notin> set (rev l)" by simp
  have s: "split_nl [0x61, 0x62, 0x0A, 0x63, 0x64] = [[0x61, 0x62], [0x63, 0x64]]" by simp
  from modifyCasesWrapper_maps_lines [of "[0x61, 0x62, 0x0A, 0x63, 0x64]" rev] h
  have "modifyCasesWrapper [0x61, 0x62, 0x0A, 0x63, 0x64] rev
          = join [0x0A] (map rev (split_nl [0x61, 0x62, 0x0A, 0x63, 0x64]))
        \<and> length (split_nl (modifyCasesWrapper [0x61, 0x62, 0x0A, 0x63, 0x64] rev))
          = length (split_nl [0x61, 0x62, 0x0A, 0x63, 0x64])"
    by blast
  then show ?thesis unfolding s by simp
qed

text \<open>
  The claim as first stated (the same number of lines for every case function) fails for a
  function that returns a line feed: with the function that puts a line feed in front of
  its argument, the one-line input \<open>a\<close> gives a result of two lines.
\<close>

theorem modifyCasesWrapper_line_count_counterexample:
  "modifyCasesWrapper [0x61] ((#) 0x0A) = [0x0A, 0x61]
   \<and> length (split_nl [0x61]) = 1
   \<and> length (split_nl (modifyCasesWrapper [0x61] ((#) 0x0A))) = 2"
  by (simp add: modifyCasesWrapper_def)

section \<open>JSON: reading back what was written\<close>

lemma hex_split: "(n::nat) < 65536 \<Longrightarrow>
  4096 * (n div 4096 mod 16) + 256 * (n div 256 mod 16) + 16 * (n div 16 mod 16) + n mod 16 = n"
proof -
  assume n: "n < 65536"
  have a: "n = 16 * (n div 16) + n mod 16" by simp
  have "n div 16 = 16 * (n div 16 div 16) + n div 16 mod 16" by simp
  then have b: "n div 16 = 16 * (n div 256) + n div 16 mod 16"
    by (simp add: div_mult2_eq [symmetric])
  have "n div 256 = 16 * (n div 256 div 16) + n div 256 mod 16" by simp
  then have c: "n div 256 = 16 * (n div 4096) + n div 256 mod 16"
    by (simp add: div_mult2_eq [symmetric])
  have d: "n div 4096 mod 16 = n div 4096" using n by simp
  from a b c d show ?thesis by linarith
qed

lemma word_of_hex:
  "(word_of_nat (4096 * (unat c div 4096 mod 16) + 256 * (unat c div 256 mod 16)
       + 16 * (unat c div 16 mod 16) + unat c mod 16) :: jschar) = c"
proof -
  have "unat c < 65536" using unsigned_less [of c] by simp
  then show ?thesis by (simp only: hex_split) simp
qed

lemma word_of_hex_sum:
  "4096 * word_of_nat (unat c div 4096 mod 16) + 256 * word_of_nat (unat c div 256 mod 16)
     + 16 * word_of_nat (unat c div 16 mod 16) + word_of_nat (unat c mod 16) = (c :: jschar)"
  using word_of_hex [of c] by simp

lemma unat_digit: "n < 10 \<Longrightarrow> unat (0x30 + word_of_nat n :: jschar) = 48 + n"
  by (simp add: unat_word_ariths unat_of_nat)

lemma unat_letter: "n < 6 \<Longrightarrow> unat (0x61 + word_of_nat n :: jschar) = 97 + n"
  by (simp add: unat_word_ariths unat_of_nat)

lemma hex_value_hex_digit: "n < 16 \<Longrightarrow> hex_value (hex_digit n) = Some n"
proof (cases "n < 10")
  case True
  then have "unat (hex_digit n) = 48 + n"
    unfolding hex_digit_def by (simp only: if_True unat_digit)
  with True show ?thesis
    by (simp add: hex_value_def word_le_nat_alt)
next
  case False
  assume "n < 16"
  with False have "n - 10 < 6" by simp
  then have "unat (0x61 + word_of_nat (n - 10) :: jschar) = 97 + (n - 10)"
    by (rule unat_letter)
  with False have "unat (hex_digit n) = 87 + n"
    unfolding hex_digit_def by simp
  with False \<open>n < 16\<close> show ?thesis
    by (simp add: hex_value_def word_le_nat_alt)
qed

lemma lex_string_UnicodeEscape:
  "lex_string (UnicodeEscape c @ tail) = prepend c (lex_string tail)"
  by (simp add: UnicodeEscape_def hex_value_hex_digit word_of_hex_sum)

lemma lex_string_quote_code_unit:
  "lex_string (quote_code_unit c @ tail) = prepend c (lex_string tail)"
proof (cases "c < 0x20 \<or> is_leading_surrogate c \<or> is_trailing_surrogate c")
  case True
  then have "c \<noteq> 0x22" "c \<noteq> 0x5C"
    by (auto simp: is_leading_surrogate_def is_trailing_surrogate_def)
  then show ?thesis
    by (simp add: quote_code_unit_def lex_string_UnicodeEscape unescape_def)
next
  case False
  then have "\<not> c < 0x20" by simp
  then have "c \<noteq> 0x08" "c \<noteq> 0x09" "c \<noteq> 0x0A" "c \<noteq> 0x0C" "c \<noteq> 0x0D" by auto
  with False show ?thesis
    by (simp add: quote_code_unit_def unescape_def)
qed

lemma lex_string_surrogate:
  "is_leading_surrogate c \<or> is_trailing_surrogate c \<Longrightarrow>
   lex_string (c # tail) = prepend c (lex_string tail)"
proof -
  assume "is_leading_surrogate c \<or> is_trailing_surrogate c"
  then have "55296 \<le> unat c"
    by (auto simp: is_leading_surrogate_def is_trailing_surrogate_def word_le_nat_alt)
  then have "c \<noteq> 0x22" "c \<noteq> 0x5C" "\<not> c < 0x20"
    by (auto simp: word_less_nat_alt)
  then show ?thesis by simp
qed

lemma lex_string_quote_code_units:
  "lex_string (quote_code_units s @ 0x22 # rest) = Some (s, rest)"
proof (induction s rule: quote_code_units.induct)
  case 1
  show ?case by simp
next
  case (2 c)
  show ?case by (simp add: lex_string_quote_code_unit prepend_def)
next
  case (3 c d cs)
  show ?case
  proof (cases "is_leading_surrogate c \<and> is_trailing_surrogate d")
    case True
    with "3.IH"(1) [OF True] show ?thesis
      by (simp add: lex_string_surrogate prepend_def del: lex_string.simps)
  next
    case False
    then have "quote_code_units (c # d # cs) = quote_code_unit c @ quote_code_units (d # cs)"
      by auto
    with "3.IH"(2) [OF False] show ?thesis
      by (simp add: lex_string_quote_code_unit prepend_def del: lex_string.simps quote_code_units.simps)
  qed
qed

lemma tokens_QuoteJSONString:
  "tokens (QuoteJSONString s @ rest) = map_option ((#) (TString s)) (tokens rest)"
  by (simp add: QuoteJSONString_def lex_string_quote_code_units is_ws_def)

text \<open>The tokens of a serialised list: the strings separated by commas.\<close>

lemma tokens_joined:
  "tokens (join [0x2C] (map QuoteJSONString (x # xs)) @ tail)
     = map_option (\<lambda>ts. TString x # concat (map (\<lambda>s. [TComma, TString s]) xs) @ ts) (tokens tail)"
proof (induction xs arbitrary: x)
  case Nil
  show ?case
    using tokens_QuoteJSONString [of x tail] by (simp add: map_option.compositionality comp_def)
next
  case (Cons y ys)
  have "tokens (join [0x2C] (map QuoteJSONString (x # y # ys)) @ tail)
          = tokens (QuoteJSONString x @ 0x2C # join [0x2C] (map QuoteJSONString (y # ys)) @ tail)"
    by simp
  also have "\<dots> = map_option ((#) (TString x))
                     (tokens (0x2C # join [0x2C] (map QuoteJSONString (y # ys)) @ tail))"
    by (rule tokens_QuoteJSONString)
  also have "\<dots> = map_option ((#) (TString x)) (map_option ((#) TComma)
                     (tokens (join [0x2C] (map QuoteJSONString (y # ys)) @ tail)))"
    by (simp add: is_ws_def)
  also have "\<dots> = map_option ((#) (TString x)) (map_option ((#) TComma)
                     (map_option (\<lambda>ts. TString y # concat (map (\<lambda>s. [TComma, TString s]) ys) @ ts)
                        (tokens tail)))"
    by (simp only: Cons.IH)
  also have "\<dots> = map_option (\<lambda>ts. TString x # concat (map (\<lambda>s. [TComma, TString s]) (y # ys)) @ ts)
                        (tokens tail)"
    by (cases "tokens tail") simp_all
  finally show ?case .
qed

lemma tokens_JSON_stringify:
  "tokens (JSON_stringify (x # xs))
     = Some (TLBracket # TString x # concat (map (\<lambda>s. [TComma, TString s]) xs) @ [TRBracket])"
  using tokens_joined [of x xs "[0x5D]"] by (simp add: JSON_stringify_def is_ws_def)

lemma tokens_cut_JSON_stringify:
  "tokens (butlast (JSON_stringify (x # xs)))
     = Some (TLBracket # TString x # concat (map (\<lambda>s. [TComma, TString s]) xs))"
  using tokens_joined [of x xs "[]"]
  by (simp add: JSON_stringify_def is_ws_def butlast_append del: join.simps)

lemma parse_after_strings:
  "parse_after v [InArray acc] (concat (map (\<lambda>s. [TComma, TString s]) xs) @ [TRBracket])
     = Some (JArray (rev acc @ v # map JString xs))"
  by (induction xs arbitrary: v acc) simp_all

lemma parse_after_strings_cut:
  "parse_after v [InArray acc] (concat (map (\<lambda>s. [TComma, TString s]) xs)) = None"
  by (induction xs arbitrary: v acc) simp_all

lemma JSON_parse_stringify: "JSON_parse (JSON_stringify items) = Inr (json_of_cases items)"
proof (cases items)
  case Nil
  then show ?thesis
    by (simp add: JSON_parse_def JSON_stringify_def json_of_cases_def is_ws_def)
next
  case (Cons x xs)
  then show ?thesis
    using parse_after_strings [of "JString x" "[]" xs]
    by (simp add: JSON_parse_def json_of_cases_def tokens_JSON_stringify)
qed

lemma JSON_parse_cut_stringify: "JSON_parse (butlast (JSON_stringify items)) = Inl SyntaxError"
proof (cases items)
  case Nil
  then show ?thesis
    by (simp add: JSON_parse_def JSON_stringify_def is_ws_def)
next
  case (Cons x xs)
  then show ?thesis
    using parse_after_strings_cut [of "JString x" "[]" xs]
    by (simp add: JSON_parse_def tokens_cut_JSON_stringify)
qed

lemma cut_stringify_truthy: "truthy (butlast (JSON_stringify items))"
  by (cases items) (simp_all add: truthy_def JSON_stringify_def butlast_append)

lemma json_of_cases_inj: "inj json_of_cases"
proof (rule injI)
  fix xs ys :: "CaseType list"
  assume "json_of_cases xs = json_of_cases ys"
  then have "map JString xs = map JString ys" by (simp add: json_of_cases_def)
  moreover have "inj JString" by (rule injI) simp
  ultimately show "xs = ys" by simp
qed

lemma cache_keys_differ: "js ''pinned'' \<noteq> js ''recent''"
  by (simp add: js_def)

lemma JSON_stringify_truthy: "truthy (JSON_stringify items)"
  by (simp add: truthy_def JSON_stringify_def)

section \<open>Claims on the stored lists\<close>

text \<open>
  C6. For every list of identifier strings, storing the list with \<open>setPinnedCases\<close>
  (or \<open>setRecentCases\<close>) and reading it back with \<open>getPinnedCases\<close>
  (\<open>getRecentCases\<close>) gives the array of exactly these strings in the same order;
  storing under the other key in between changes nothing, and different lists give
  different arrays.
\<close>

theorem load_after_save_roundtrip:
  "getPinnedCases (setPinnedCases items cache) = Inr (json_of_cases items)
   \<and> getRecentCases (setRecentCases items cache) = Inr (json_of_cases items)
   \<and> getPinnedCases (setRecentCases others (setPinnedCases items cache)) = Inr (json_of_cases items)
   \<and> getRecentCases (setPinnedCases others (setRecentCases items cache)) = Inr (json_of_cases items)
   \<and> inj json_of_cases"
proof -
  have k: "js ''recent'' \<noteq> js ''pinned''" using cache_keys_differ by simp
  have "getPinnedCases (setPinnedCases items c) = Inr (json_of_cases items)" for c
    by (simp add: getPinnedCases_def setPinnedCases_def JSON_stringify_truthy JSON_parse_stringify)
  moreover have "getRecentCases (setRecentCases items c) = Inr (json_of_cases items)" for c
    by (simp add: getRecentCases_def setRecentCases_def JSON_stringify_truthy JSON_parse_stringify)
  moreover have "getPinnedCases (setRecentCases others c) = getPinnedCases c" for c
    by (simp add: getPinnedCases_def setRecentCases_def cache_keys_differ)
  moreover have "getRecentCases (setPinnedCases others c) = getRecentCases c" for c
    by (simp add: getRecentCases_def setPinnedCases_def k)
  ultimately show ?thesis using json_of_cases_inj by simp
qed

theorem load_after_save_roundtrip_witness:
  "setPinnedCases [js ''camelCase'', js ''snake_case''] Map.empty (js ''pinned'')
     = Some ([0x5B, 0x22] @ js ''camelCase'' @ [0x22, 0x2C, 0x22] @ js ''snake_case'' @ [0x22, 0x5D])
   \<and> getPinnedCases (setPinnedCases [js ''camelCase'', js ''snake_case''] Map.empty)
     = Inr (JArray [JString (js ''camelCase''), JString (js ''snake_case'')])"
proof -
  have "setPinnedCases [js ''camelCase'', js ''snake_case''] Map.empty (js ''pinned'')
     = Some ([0x5B, 0x22] @ js ''camelCase'' @ [0x22, 0x2C, 0x22] @ js ''snake_case'' @ [0x22, 0x5D])"
    by (simp add: setPinnedCases_def JSON_stringify_def QuoteJSONString_def quote_code_unit_def
          is_leading_surrogate_def is_trailing_surrogate_def js_def)
  then show ?thesis
    using load_after_save_roundtrip [of "[js ''camelCase'', js ''snake_case'']" Map.empty]
    by (simp add: json_of_cases_def)
qed

text \<open>
  C4 (as amended). \<open>getPinnedCases\<close> gives the empty list when nothing is stored
  under \<open>pinned\<close> or the stored string is empty. Every other stored string goes to
  \<open>JSON.parse\<close> without a guard, and its result is the result of \<open>getPinnedCases\<close>:
  a stored string that is not a JSON text, such as a serialised list cut before its
  closing bracket, raises \<open>SyntaxError\<close>.
\<close>

theorem getPinnedCases_unguarded:
  "(cache (js ''pinned'') = None \<or> cache (js ''pinned'') = Some [] \<longrightarrow>
      getPinnedCases cache = Inr (JArray []))
   \<and> (cache (js ''pinned'') = Some stored \<and> stored \<noteq> [] \<longrightarrow>
      getPinnedCases cache = JSON_parse stored)
   \<and> (cache (js ''pinned'') = Some (butlast (JSON_stringify items)) \<longrightarrow>
      getPinnedCases cache = Inl SyntaxError)"
  using cut_stringify_truthy [of items]
  by (auto simp: getPinnedCases_def truthy_def JSON_parse_cut_stringify)

theorem getPinnedCases_unguarded_witness:
  "getPinnedCases Map.empty = Inr (JArray [])
   \<and> getPinnedCases [js ''pinned'' \<mapsto> []] = Inr (JArray [])
   \<and> butlast (JSON_stringify [js ''camelCase'']) = [0x5B, 0x22] @ js ''camelCase'' @ [0x22]
   \<and> getPinnedCases [js ''pinned'' \<mapsto> [0x5B, 0x22] @ js ''camelCase'' @ [0x22]] = Inl SyntaxError"
proof -
  have b: "butlast (JSON_stringify [js ''camelCase'']) = [0x5B, 0x22] @ js ''camelCase'' @ [0x22]"
    by (simp add: JSON_stringify_def QuoteJSONString_def quote_code_unit_def
          is_leading_surrogate_def is_trailing_surrogate_def js_def)
  have "getPinnedCases Map.empty = Inr (JArray [])"
    using getPinnedCases_unguarded [of Map.empty] by simp
  moreover have "getPinnedCases [js ''pinned'' \<mapsto> []] = Inr (JArray [])"
    using getPinnedCases_unguarded [of "[js ''pinned'' \<mapsto> []]"] by simp
  moreover have "getPinnedCases [js ''pinned'' \<mapsto> butlast (JSON_stringify [js ''camelCase''])]
                   = Inl SyntaxError"
    using getPinnedCases_unguarded
            [of "[js ''pinned'' \<mapsto> butlast (JSON_stringify [js ''camelCase''])]" _ "[js ''camelCase'']"]
    by simp
  ultimately show ?thesis using b by simp
qed

text \<open>
  The claim as first stated (a malformed stored value gives the empty list and no
  exception) fails on the stored string \<open>camelCase\<close>, which is not a JSON text:
  \<open>getPinnedCases\<close> raises \<open>SyntaxError\<close>.
\<close>

theorem getPinnedCases_malformed_counterexample:
  "getPinnedCases [js ''pinned'' \<mapsto> js ''camelCase''] = Inl SyntaxError
   \<and> getPinnedCases [js ''pinned'' \<mapsto> js ''camelCase''] \<noteq> Inr (JArray [])"
  by (simp add: getPinnedCases_def truthy_def JSON_parse_def js_def is_ws_def is_digit_def)

end
